theory Spec2Isabelle
  imports Main "HOL-Library.Sublist"
begin

section \<open>The subset generator of \<^verbatim>\<open>C++/subsets.cpp\<close>\<close>

text \<open>
  The program consists of one recursive procedure, \<^verbatim>\<open>generateSubsets\<close>, and a driver
  \<^verbatim>\<open>main\<close> that runs it on \<^verbatim>\<open>{1, 2, 3}\<close> and prints the subsets found.

  Modelling decisions.
  \<^item> A \<^verbatim>\<open>vector<int>\<close> is an \<open>int list\<close>, a \<^verbatim>\<open>vector<vector<int>>\<close> an \<open>int list list\<close>.
    The elements are only copied and printed, never computed with.
  \<^item> The parameter \<^verbatim>\<open>int index\<close> is an \<open>int\<close>. The only arithmetic on it is
    \<^verbatim>\<open>index + 1\<close>; on the calls studied here \<open>0 \<le> index \<le> n\<close>, so the sum stays in the
    range of a 32-bit \<^verbatim>\<open>int\<close> for every input of fewer than \<open>2^31\<close> elements. Longer
    inputs, whose \<open>2^n\<close> subsets no \<^verbatim>\<open>vector\<close> can hold, are outside this development.
  \<^item> The two buffers passed by reference, \<^verbatim>\<open>current\<close> and \<^verbatim>\<open>result\<close>, are the fields of
    a record that every call takes and returns. \<^verbatim>\<open>nums\<close> is never written and is a plain
    argument; it is a different object from \<^verbatim>\<open>current\<close>, as in \<^verbatim>\<open>main\<close>.
  \<^item> Undefined behaviour is an error value: \<^verbatim>\<open>nums[index]\<close> outside the vector is
    \<open>OutOfBounds\<close>, \<^verbatim>\<open>pop_back\<close> on an empty vector is \<open>PopBackEmpty\<close>.
  \<^item> A call that does not return has the value \<open>None\<close>.
\<close>

subsection \<open>Data\<close>

datatype error = OutOfBounds | PopBackEmpty

record buffers =
  current :: "int list"
  result :: "int list list"

subsection \<open>Vector operations used by the source\<close>

text \<open>\<^verbatim>\<open>nums[index]\<close>: the index is converted to an unsigned size, so a negative index is
  as far out of range as one beyond the end.\<close>

definition subscript :: "int list \<Rightarrow> int \<Rightarrow> error + int" where
  "subscript nums index =
     (if 0 \<le> index \<and> index < int (length nums) then Inr (nums ! nat index)
      else Inl OutOfBounds)"

text \<open>\<^verbatim>\<open>current.push_back(x)\<close> and \<^verbatim>\<open>current.pop_back()\<close>.\<close>

definition push_back :: "buffers \<Rightarrow> int \<Rightarrow> buffers" where
  "push_back st x = st\<lparr>current := current st @ [x]\<rparr>"

definition pop_back :: "buffers \<Rightarrow> error + buffers" where
  "pop_back st =
     (if current st = [] then Inl PopBackEmpty
      else Inr (st\<lparr>current := butlast (current st)\<rparr>))"

subsection \<open>generateSubsets\<close>

text \<open>
  \<^verbatim>\<open>
  void generateSubsets(vector<int>& nums, int index, vector<int>& current,
                       vector<vector<int>>& result) {
      if (index == nums.size()) { result.push_back(current); return; }
      generateSubsets(nums, index + 1, current, result);
      current.push_back(nums[index]);
      generateSubsets(nums, index + 1, current, result);
      current.pop_back();
  }
  \<close>
  The comparison \<^verbatim>\<open>index == nums.size()\<close> is made on unsigned sizes; a negative index
  becomes a value larger than any vector size, so the test is false there, as it is for
  \<open>index = int (length nums)\<close>. Nothing bounds the recursion when \<open>index\<close> starts
  beyond the size, so the function is defined as a partial function.
\<close>

partial_function (option) generateSubsets ::
  "int list \<Rightarrow> int \<Rightarrow> buffers \<Rightarrow> (error + buffers) option" where
  "generateSubsets nums index st =
     (if index = int (length nums) then
        Some (Inr (st\<lparr>result := result st @ [current st]\<rparr>))
      else
        Option.bind (generateSubsets nums (index + 1) st) (\<lambda>r1.
          case r1 of
            Inl e \<Rightarrow> Some (Inl e)
          | Inr st1 \<Rightarrow>
              (case subscript nums index of
                 Inl e \<Rightarrow> Some (Inl e)
               | Inr x \<Rightarrow>
                   Option.bind (generateSubsets nums (index + 1) (push_back st1 x)) (\<lambda>r2.
                     case r2 of
                       Inl e \<Rightarrow> Some (Inl e)
                     | Inr st2 \<Rightarrow> Some (pop_back st2)))))"

declare generateSubsets.simps [code]

text \<open>
  The same procedure run with a bound on the depth of recursion: \<open>d\<close> is the number of
  nested recursive calls still allowed below the current call. A call that would need one
  more level does not return (\<open>None\<close>).
\<close>

fun generateSubsets_depth ::
  "nat \<Rightarrow> int list \<Rightarrow> int \<Rightarrow> buffers \<Rightarrow> (error + buffers) option" where
  "generateSubsets_depth 0 nums index st =
     (if index = int (length nums) then
        Some (Inr (st\<lparr>result := result st @ [current st]\<rparr>))
      else None)"
| "generateSubsets_depth (Suc d) nums index st =
     (if index = int (length nums) then
        Some (Inr (st\<lparr>result := result st @ [current st]\<rparr>))
      else
        Option.bind (generateSubsets_depth d nums (index + 1) st) (\<lambda>r1.
          case r1 of
            Inl e \<Rightarrow> Some (Inl e)
          | Inr st1 \<Rightarrow>
              (case subscript nums index of
                 Inl e \<Rightarrow> Some (Inl e)
               | Inr x \<Rightarrow>
                   Option.bind (generateSubsets_depth d nums (index + 1) (push_back st1 x)) (\<lambda>r2.
                     case r2 of
                       Inl e \<Rightarrow> Some (Inl e)
                     | Inr st2 \<Rightarrow> Some (pop_back st2)))))"

text \<open>The fresh buffers that \<^verbatim>\<open>main\<close> declares before the call.\<close>

definition fresh :: buffers where
  "fresh = \<lparr>current = [], result = []\<rparr>"

subsection \<open>The driver\<close>

text \<open>\<^verbatim>\<open>cout << x\<close> for an \<^verbatim>\<open>int\<close>: decimal digits, with a minus sign when negative.\<close>

definition digit :: "nat \<Rightarrow> char" where
  "digit d = ''0123456789'' ! d"

fun show_nat :: "nat \<Rightarrow> string" where
  "show_nat n = (if n < 10 then [digit n] else show_nat (n div 10) @ [digit (n mod 10)])"

declare show_nat.simps [simp del]

definition show_int :: "int \<Rightarrow> string" where
  "show_int x = (if x < 0 then ''-'' @ show_nat (nat (- x)) else show_nat (nat x))"

definition newline :: string where
  "newline = [CHR 0x0A]"

text \<open>
  The body of the outer loop:
  \<^verbatim>\<open>cout << "{ "; for (int x : subset) cout << x << " "; cout << "}\n";\<close>
\<close>

definition print_subset :: "int list \<Rightarrow> string" where
  "print_subset sub =
     ''{ '' @ concat (map (\<lambda>x. show_int x @ '' '') sub) @ ''}'' @ newline"

text \<open>
  \<^verbatim>\<open>main\<close>: the text written to standard output and the exit code.
\<close>

definition main :: "(error + string \<times> int) option" where
  "main =
     (let nums = [1, 2, 3] in
      Option.bind (generateSubsets nums 0 fresh) (\<lambda>r.
        case r of
          Inl e \<Rightarrow> Some (Inl e)
        | Inr st \<Rightarrow>
            Some (Inr (''All subsets:'' @ newline @ concat (map print_subset (result st)), 0))))"

subsection \<open>The enumeration as a list function\<close>

text \<open>
  The order of section 4.1 of the specification: at each element, first every subset
  without it, then every subset with it.
\<close>

fun subsets_from :: "'a list \<Rightarrow> 'a list list" where
  "subsets_from [] = [[]]"
| "subsets_from (x # xs) = subsets_from xs @ map ((#) x) (subsets_from xs)"

text \<open>The line format of section 6 of the specification for a subset with elements:
  \<^verbatim>\<open>{ e1 e2 ... en }\<close>.\<close>

fun space_separated :: "string list \<Rightarrow> string" where
  "space_separated [] = []"
| "space_separated [w] = w"
| "space_separated (w # ws) = w @ '' '' @ space_separated ws"

definition braced_line :: "int list \<Rightarrow> string" where
  "braced_line sub = ''{ '' @ space_separated (map show_int sub) @ '' }''"

section \<open>Properties of the enumeration order\<close>

text \<open>
  \<open>subsets_from xs\<close> lists \<open>2^n\<close> sequences, exactly the subsequences of \<open>xs\<close>; the
  list has no repetition precisely when \<open>xs\<close> has none, and it always holds \<open>[]\<close> and
  \<open>xs\<close> once each.
\<close>

lemma length_subsets_from: "length (subsets_from xs) = 2 ^ length xs"
  by (induction xs) simp_all

lemma subsets_from_subseq: "s \<in> set (subsets_from xs) \<Longrightarrow> subseq s xs"
  by (induction xs arbitrary: s) auto

lemma subseq_subsets_from: "subseq s xs \<Longrightarrow> s \<in> set (subsets_from xs)"
proof (induction xs arbitrary: s)
  case Nil
  then show ?case by simp
next
  case (Cons x xs)
  show ?case
  proof (cases s)
    case Nil
    then show ?thesis using Cons.IH [of "[]"] by simp
  next
    case (Cons y ys)
    then show ?thesis using Cons.prems Cons.IH [of s] Cons.IH [of ys]
      by (auto split: if_splits)
  qed
qed

lemma subsets_from_set: "s \<in> set (subsets_from xs) \<Longrightarrow> set s \<subseteq> set xs"
  by (induction xs arbitrary: s) fastforce+

lemma subsets_from_length_le: "s \<in> set (subsets_from xs) \<Longrightarrow> length s \<le> length xs"
  by (induction xs arbitrary: s) fastforce+

lemma Nil_in_subsets_from: "[] \<in> set (subsets_from xs)"
  by (induction xs) simp_all

lemma single_in_subsets_from: "y \<in> set xs \<Longrightarrow> [y] \<in> set (subsets_from xs)"
  by (induction xs) (auto simp: Nil_in_subsets_from)

lemma distinct_subsets_from: "distinct (subsets_from xs) \<longleftrightarrow> distinct xs"
proof (induction xs)
  case Nil
  show ?case by simp
next
  case (Cons x xs)
  show ?case
  proof (cases "x \<in> set xs")
    case True
    then have "[x] \<in> set (subsets_from xs)" by (rule single_in_subsets_from)
    moreover have "[x] \<in> (#) x ` set (subsets_from xs)"
      using Nil_in_subsets_from [of xs] by (rule rev_image_eqI) simp
    ultimately show ?thesis using True by auto
  next
    case False
    have "set (subsets_from xs) \<inter> (#) x ` set (subsets_from xs) = {}"
      using False subsets_from_set [of "x # _" xs] by fastforce
    then show ?thesis using False Cons.IH
      by (simp add: distinct_map)
  qed
qed

lemma count_Nil_subsets_from: "count_list (subsets_from xs) [] = 1"
proof (induction xs)
  case Nil
  show ?case by simp
next
  case (Cons x xs)
  have "[] \<notin> set (map ((#) x) (subsets_from xs))" by auto
  then have "count_list (map ((#) x) (subsets_from xs)) [] = 0"
    using count_list_0_iff by fastforce
  then show ?case using Cons.IH by simp
qed

lemma count_all_subsets_from: "count_list (subsets_from xs) xs = 1"
proof (induction xs)
  case Nil
  show ?case by simp
next
  case (Cons x xs)
  have "x # xs \<notin> set (subsets_from xs)"
    using subsets_from_length_le [of "x # xs" xs] by auto
  then have a: "count_list (subsets_from xs) (x # xs) = 0"
    using count_list_0_iff by fastforce
  have "xs \<in> set (subsets_from xs)"
    by (rule subseq_subsets_from) simp
  then have "count_list (map ((#) x) (subsets_from xs)) (x # xs) = count_list (subsets_from xs) xs"
    by (intro count_list_inj_map) simp_all
  then show ?case using a Cons.IH by simp
qed

section \<open>What a call returns\<close>

text \<open>
  A call with \<open>0 \<le> index \<le> n\<close> returns normally. It leaves \<open>current\<close> as it found it and
  appends to \<open>result\<close> the subsets of the elements from \<open>index\<close> on, each prefixed by the
  path that \<open>current\<close> held at the call.
\<close>

lemma generateSubsets_returns:
  assumes "0 \<le> index" and "index \<le> int (length nums)"
  shows "generateSubsets nums index st =
           Some (Inr (st\<lparr>result := result st @
              map ((@) (current st)) (subsets_from (drop (nat index) nums))\<rparr>))"
  using assms
proof (induction "nat (int (length nums) - index)" arbitrary: index st)
  case 0
  then have "index = int (length nums)" by simp
  then show ?case
    by (subst generateSubsets.simps) simp
next
  case (Suc k)
  then have lt: "index < int (length nums)" and k: "k = nat (int (length nums) - (index + 1))"
    by simp_all
  have nxt: "0 \<le> index + 1" "index + 1 \<le> int (length nums)"
    using Suc.prems lt by simp_all
  have suc: "nat (index + 1) = Suc (nat index)"
    using Suc.prems by simp
  have dr: "drop (nat index) nums = nums ! nat index # drop (nat (index + 1)) nums"
    using lt Suc.prems by (simp add: suc Cons_nth_drop_Suc)
  have sub: "subscript nums index = Inr (nums ! nat index)"
    using lt Suc.prems by (simp add: subscript_def)
  note ih = Suc.hyps(1) [OF k nxt]
  show ?case
    by (subst generateSubsets.simps)
      (simp add: ih sub dr push_back_def pop_back_def lt less_imp_neq)
qed

text \<open>
  The top-level call of \<^verbatim>\<open>main\<close>, on fresh buffers.
\<close>

lemma generateSubsets_fresh:
  "generateSubsets nums 0 fresh = Some (Inr \<lparr>current = [], result = subsets_from nums\<rparr>)"
proof -
  have "map ((@) []) (subsets_from nums) = subsets_from nums"
    by (induction "subsets_from nums") simp_all
  then show ?thesis
    using generateSubsets_returns [of 0 nums fresh] by (simp add: fresh_def)
qed

text \<open>
  Outside \<open>0 \<le> index \<le> n\<close> no call returns normally. Beyond the size the recursion never
  meets its base case; this is proved from the fixed-point induction rule of the partial
  function. Below zero the exclude branch climbs to index 0 and returns, and the access
  \<^verbatim>\<open>nums[index]\<close> that follows is out of bounds.
\<close>

lemma generateSubsets_in_range:
  assumes "generateSubsets nums index st = Some y"
  shows "index \<le> int (length nums)"
  using assms
proof (induct nums index st y rule: generateSubsets.raw_induct [rotated 1, consumes 1, case_names step])
  case (step gs nums index st y)
  note IH = step(1) and body = step(2)
  show ?case
  proof (cases "index = int (length nums)")
    case True
    then show ?thesis by simp
  next
    case False
    with body obtain r1 where "gs nums (index + 1) st = Some r1"
      by (auto simp: bind_eq_Some_conv)
    from IH [OF this] show ?thesis by simp
  qed
qed

lemma generateSubsets_beyond:
  "int (length nums) < index \<Longrightarrow> generateSubsets nums index st = None"
  using generateSubsets_in_range [of nums index st] by fastforce

lemma generateSubsets_negative:
  "index < 0 \<Longrightarrow> generateSubsets nums index st = Some (Inl OutOfBounds)"
proof (induction "nat (- index)" arbitrary: index)
  case 0
  then show ?case by simp
next
  case (Suc k)
  have ne: "index \<noteq> int (length nums)" using Suc.prems by simp
  have sub: "subscript nums index = Inl OutOfBounds"
    using Suc.prems by (simp add: subscript_def)
  show ?case
  proof (cases "index + 1 = 0")
    case True
    then have "generateSubsets nums (index + 1) st =
        Some (Inr (st\<lparr>result := result st @ map ((@) (current st)) (subsets_from (drop (nat (index + 1)) nums))\<rparr>))"
      by (intro generateSubsets_returns) simp_all
    then show ?thesis
      by (subst generateSubsets.simps) (simp add: ne sub)
  next
    case False
    then have "generateSubsets nums (index + 1) st = Some (Inl OutOfBounds)"
      using Suc by (intro Suc.hyps(1)) simp_all
    then show ?thesis
      by (subst generateSubsets.simps) (simp add: ne)
  qed
qed

text \<open>
  Hence whatever call returns normally has restored \<open>current\<close> and only appended to
  \<open>result\<close>.
\<close>

lemma generateSubsets_frame:
  assumes "generateSubsets nums index st = Some (Inr st')"
  shows "current st' = current st \<and> prefix (result st) (result st')"
proof -
  have hi: "index \<le> int (length nums)"
    using assms by (rule generateSubsets_in_range)
  have lo: "0 \<le> index"
    using assms generateSubsets_negative [of index nums st] by fastforce
  from assms show ?thesis
    by (auto simp: generateSubsets_returns [OF lo hi])
qed

text \<open>
  The depth-bounded run never invents an outcome: what it returns, the procedure returns.
  With \<open>0 \<le> index \<le> n\<close> it completes exactly when the bound is at least \<open>n - index\<close>.
\<close>

lemma generateSubsets_depth_sound:
  "generateSubsets_depth d nums index st = Some r \<Longrightarrow> generateSubsets nums index st = Some r"
proof (induction d arbitrary: index st r)
  case 0
  then show ?case
    by (subst generateSubsets.simps) (simp split: if_splits)
next
  case (Suc d)
  show ?case
  proof (cases "index = int (length nums)")
    case True
    with Suc.prems show ?thesis
      by (subst generateSubsets.simps) simp
  next
    case False
    with Suc.prems obtain r1 where
      c1: "generateSubsets_depth d nums (index + 1) st = Some r1" and
      rest: "(case r1 of Inl e \<Rightarrow> Some (Inl e)
          | Inr st1 \<Rightarrow>
              (case subscript nums index of
                 Inl e \<Rightarrow> Some (Inl e)
               | Inr x \<Rightarrow>
                   Option.bind (generateSubsets_depth d nums (index + 1) (push_back st1 x)) (\<lambda>r2.
                     case r2 of
                       Inl e \<Rightarrow> Some (Inl e)
                     | Inr st2 \<Rightarrow> Some (pop_back st2)))) = Some r"
      by (auto simp: bind_eq_Some_conv)
    have g1: "generateSubsets nums (index + 1) st = Some r1"
      using c1 by (rule Suc.IH)
    show ?thesis
    proof (cases r1)
      case (Inl e)
      with rest have "r = Inl e" by simp
      with g1 False Inl show ?thesis
        by (subst generateSubsets.simps) simp
    next
      case (Inr st1)
      show ?thesis
      proof (cases "subscript nums index")
        case (Inl e)
        with rest Inr have "r = Inl e" by simp
        with g1 False Inr Inl show ?thesis
          by (subst generateSubsets.simps) simp
      next
        case x: (Inr x)
        with rest Inr obtain r2 where
          c2: "generateSubsets_depth d nums (index + 1) (push_back st1 x) = Some r2" and
          fin: "(case r2 of Inl e \<Rightarrow> Some (Inl e) | Inr st2 \<Rightarrow> Some (pop_back st2)) = Some r"
          by (auto simp: bind_eq_Some_conv)
        have g2: "generateSubsets nums (index + 1) (push_back st1 x) = Some r2"
          using c2 by (rule Suc.IH)
        show ?thesis
          using False g1 Inr x g2 fin
          by (subst generateSubsets.simps) simp
      qed
    qed
  qed
qed

lemma generateSubsets_depth_exact:
  assumes "0 \<le> index" and "index \<le> int (length nums)"
  shows "generateSubsets_depth d nums index st =
           (if nat (int (length nums) - index) \<le> d then generateSubsets nums index st else None)"
  using assms
proof (induction d arbitrary: index st)
  case 0
  then show ?case
    by (subst generateSubsets.simps) auto
next
  case (Suc d)
  show ?case
  proof (cases "index = int (length nums)")
    case True
    then show ?thesis
      by (subst generateSubsets.simps) simp
  next
    case False
    then have nxt: "0 \<le> index + 1" "index + 1 \<le> int (length nums)"
      using Suc.prems by simp_all
    have le: "nat (int (length nums) - index) \<le> Suc d \<longleftrightarrow> nat (int (length nums) - (index + 1)) \<le> d"
      using False Suc.prems by auto
    show ?thesis
    proof (cases "nat (int (length nums) - index) \<le> Suc d")
      case True
      with le have ok: "nat (int (length nums) - (index + 1)) \<le> d" by simp
      show ?thesis
        using True False ok
        by (subst generateSubsets.simps)
          (auto simp: Suc.IH [OF nxt] intro!: Option.bind_cong split: sum.splits)
    next
      case no: False
      with le have "\<not> nat (int (length nums) - (index + 1)) \<le> d" by simp
      then show ?thesis
        using no False by (simp add: Suc.IH [OF nxt])
    qed
  qed
qed

section \<open>The output format\<close>

text \<open>
  The loop of \<^verbatim>\<open>main\<close> writes a space after every element. For a subset with elements this
  is the form \<^verbatim>\<open>{ e1 e2 ... en }\<close>; for the empty subset the space after the opening brace
  is also the space before the closing one, and the line is \<^verbatim>\<open>{ }\<close>.
\<close>

lemma concat_trailing_space:
  "ws \<noteq> [] \<Longrightarrow> concat (map (\<lambda>w. w @ '' '') ws) = space_separated ws @ '' ''"
  by (induction ws rule: space_separated.induct) simp_all

lemma print_subset_format:
  "print_subset sub = (if sub = [] then ''{ }'' else braced_line sub) @ newline"
proof (cases "sub = []")
  case True
  then show ?thesis by (simp add: print_subset_def)
next
  case False
  then have "concat (map (\<lambda>w. w @ '' '') (map show_int sub)) = space_separated (map show_int sub) @ '' ''"
    by (intro concat_trailing_space) simp
  then show ?thesis using False
    by (simp add: print_subset_def braced_line_def comp_def)
qed

lemma show_digits:
  "show_int 1 = ''1''" "show_int 2 = ''2''" "show_int 3 = ''3''"
  by (simp_all add: show_int_def show_nat.simps digit_def)

section \<open>The claims of the specification\<close>

subsection \<open>Number of subsets\<close>

text \<open>
  Claim C1. For every input sequence of length \<open>n\<close>, the call with index 0, an empty
  path buffer and an empty result collection returns and leaves exactly \<open>2^n\<close> subsets in
  the result collection; for the empty input the result holds one element, the empty subset.
\<close>

theorem result_has_two_to_the_n_subsets:
  "(\<exists>st'. generateSubsets nums 0 fresh = Some (Inr st') \<and> length (result st') = 2 ^ length nums)
   \<and> generateSubsets [] 0 fresh = Some (Inr \<lparr>current = [], result = [[]]\<rparr>)"
  by (simp add: generateSubsets_fresh length_subsets_from)

subsection \<open>The run on the input of the driver\<close>

text \<open>
  Claim C2. For the input \<open>{1, 2, 3}\<close> the result collection is, in this order,
  \<open>{}, {3}, {2}, {2,3}, {1}, {1,3}, {1,2}, {1,2,3}\<close>, and the path buffer is empty again.
\<close>

theorem generateSubsets_123:
  "generateSubsets [1, 2, 3] 0 fresh =
     Some (Inr \<lparr>current = [],
                result = [[], [3], [2], [2, 3], [1], [1, 3], [1, 2], [1, 2, 3]]\<rparr>)"
  by (simp add: generateSubsets.simps fresh_def subscript_def push_back_def pop_back_def)

subsection \<open>Every subset is a subsequence of the input\<close>

text \<open>
  Claim C3. For every input sequence the top-level call returns, and every subset in its
  result collection is a subsequence of the input: its elements occur in the input and keep
  the relative order they have there.
\<close>

theorem results_are_subsequences:
  "(\<exists>st'. generateSubsets nums 0 fresh = Some (Inr st')) \<and>
   (\<forall>st' s. generateSubsets nums 0 fresh = Some (Inr st') \<longrightarrow> s \<in> set (result st') \<longrightarrow>
      subseq s nums \<and> set s \<subseteq> set nums)"
  by (auto simp: generateSubsets_fresh dest: subsets_from_subseq subsets_from_set)

theorem results_are_subsequences_witness:
  "generateSubsets [4, 5, 6] 0 fresh =
     Some (Inr \<lparr>current = [],
                result = [[], [6], [5], [5, 6], [4], [4, 6], [4, 5], [4, 5, 6]]\<rparr>) \<and>
   [4, 6] \<in> set (result \<lparr>current = [],
                result = [[], [6], [5], [5, 6], [4], [4, 6], [4, 5], [4, 5, 6]]\<rparr>) \<and>
   subseq [4, 6] [4, 5, 6 :: int] \<and> set [4, 6] \<subseteq> set [4, 5, 6 :: int]"
proof -
  let ?st = "\<lparr>current = [], result = [[], [6], [5], [5, 6], [4], [4, 6], [4, 5], [4, 5, 6]]\<rparr>"
  have run: "generateSubsets [4, 5, 6] 0 fresh = Some (Inr ?st)"
    by (simp add: generateSubsets.simps fresh_def subscript_def push_back_def pop_back_def)
  have mem: "[4, 6] \<in> set (result ?st)"
    by simp
  from results_are_subsequences [of "[4, 5, 6]"] run mem
  have "subseq [4, 6] [4, 5, 6 :: int] \<and> set [4, 6] \<subseteq> set [4, 5, 6 :: int]"
    by blast
  with run mem show ?thesis by blast
qed

subsection \<open>Distinctness of the subsets\<close>

text \<open>
  Claim C4 says that the subsets of the result collection are pairwise distinct as integer
  sequences for every input. The procedure selects positions, not values, and removes no
  duplicates: on the input \<open>{1, 1}\<close> the sequence \<open>{1}\<close> is stored twice.
\<close>

theorem duplicate_elements_give_equal_subsets:
  "generateSubsets [1, 1] 0 fresh = Some (Inr \<lparr>current = [], result = [[], [1], [1], [1, 1]]\<rparr>) \<and>
   \<not> distinct (result \<lparr>current = [], result = [[], [1], [1], [1, 1]]\<rparr>)"
  by (simp add: generateSubsets.simps fresh_def subscript_def push_back_def pop_back_def)

text \<open>
  Claim C4, amended. For every input sequence the subsets in the result collection are
  pairwise distinct as integer sequences exactly when the elements of the input are pairwise
  distinct.
\<close>

theorem results_distinct_iff_input_distinct:
  "\<exists>st'. generateSubsets nums 0 fresh = Some (Inr st') \<and>
         (distinct (result st') \<longleftrightarrow> distinct nums)"
  by (simp add: generateSubsets_fresh distinct_subsets_from)

theorem results_distinct_iff_input_distinct_witness:
  "distinct [1, 2 :: int] \<and>
   generateSubsets [1, 2] 0 fresh = Some (Inr \<lparr>current = [], result = [[], [2], [1], [1, 2]]\<rparr>) \<and>
   distinct (result \<lparr>current = [], result = [[], [2], [1], [1, 2 :: int]]\<rparr>)"
proof -
  let ?st = "\<lparr>current = [], result = [[], [2], [1], [1, 2 :: int]]\<rparr>"
  have run: "generateSubsets [1, 2] 0 fresh = Some (Inr ?st)"
    by (simp add: generateSubsets.simps fresh_def subscript_def push_back_def pop_back_def)
  have d: "distinct [1, 2 :: int]" by simp
  from results_distinct_iff_input_distinct [of "[1, 2]"] run d
  have "distinct (result ?st)" by auto
  with run d show ?thesis by blast
qed

subsection \<open>The empty and the full subset\<close>

text \<open>
  Claim C5. For every input sequence, the empty sequence and the whole input sequence each
  occur exactly once in the result collection of the top-level call.
\<close>

theorem empty_and_full_subset_once:
  "\<exists>st'. generateSubsets nums 0 fresh = Some (Inr st') \<and>
         count_list (result st') [] = 1 \<and> count_list (result st') nums = 1"
  by (simp add: generateSubsets_fresh count_Nil_subsets_from count_all_subsets_from)

subsection \<open>The path buffer is restored\<close>

text \<open>
  Claim C6. Every call that returns leaves the path buffer with exactly the contents it had
  at the call, and only appends to the result collection; a call with \<open>0 \<le> index \<le> n\<close>
  does return. So after the top-level call on fresh buffers the path buffer is empty.
\<close>

theorem path_buffer_restored:
  "(\<forall>st'. generateSubsets nums index st = Some (Inr st') \<longrightarrow>
       current st' = current st \<and> prefix (result st) (result st')) \<and>
   (0 \<le> index \<and> index \<le> int (length nums) \<longrightarrow>
       (\<exists>st'. generateSubsets nums index st = Some (Inr st'))) \<and>
   (\<exists>st'. generateSubsets nums 0 fresh = Some (Inr st') \<and> current st' = [])"
proof (intro conjI allI impI)
  fix st'
  assume "generateSubsets nums index st = Some (Inr st')"
  then show "current st' = current st" and "prefix (result st) (result st')"
    using generateSubsets_frame by blast+
next
  assume "0 \<le> index \<and> index \<le> int (length nums)"
  then show "\<exists>st'. generateSubsets nums index st = Some (Inr st')"
    by (simp add: generateSubsets_returns)
next
  show "\<exists>st'. generateSubsets nums 0 fresh = Some (Inr st') \<and> current st' = []"
    by (simp add: generateSubsets_fresh)
qed

theorem path_buffer_restored_witness:
  "(0 :: int) \<le> 1 \<and> 1 \<le> int (length [1, 2 :: int]) \<and>
   generateSubsets [1, 2] 1 \<lparr>current = [7], result = [[9]]\<rparr> =
     Some (Inr \<lparr>current = [7], result = [[9], [7], [7, 2]]\<rparr>) \<and>
   current \<lparr>current = [7], result = [[9], [7], [7, 2]]\<rparr> = current \<lparr>current = [7], result = [[9]]\<rparr> \<and>
   prefix (result \<lparr>current = [7], result = [[9]]\<rparr>) (result \<lparr>current = [7 :: int], result = [[9], [7], [7, 2]]\<rparr>)"
proof -
  let ?st = "\<lparr>current = [7], result = [[9]]\<rparr>"
  let ?st' = "\<lparr>current = [7], result = [[9], [7], [7, 2]]\<rparr>"
  have run: "generateSubsets [1, 2] 1 ?st = Some (Inr ?st')"
    by (simp add: generateSubsets.simps subscript_def push_back_def pop_back_def)
  from path_buffer_restored [of "[1, 2]" 1 ?st] run
  have "current ?st' = current ?st \<and> prefix (result ?st) (result ?st')"
    by blast
  with run show ?thesis by simp
qed

subsection \<open>The text written by the driver\<close>

text \<open>
  Claim C7. The standard output of the program is the header line \<^verbatim>\<open>All subsets:\<close>
  followed by one line for each subset of the result collection, in its order; a line is an
  opening brace and a space, the elements separated by single spaces, and a space and a
  closing brace (the empty subset gives \<^verbatim>\<open>{ }\<close>). Every line, the header included, ends
  with the line feed character. The exit code is 0.
\<close>

theorem main_output:
  "main = Some (Inr (concat (map (\<lambda>l. l @ [CHR 0x0A])
       [''All subsets:'', ''{ }'', ''{ 3 }'', ''{ 2 }'', ''{ 2 3 }'',
        ''{ 1 }'', ''{ 1 3 }'', ''{ 1 2 }'', ''{ 1 2 3 }'']), 0)) \<and>
   (\<exists>st. generateSubsets [1, 2, 3] 0 fresh = Some (Inr st) \<and>
      main = Some (Inr (''All subsets:'' @ [CHR 0x0A] @
        concat (map (\<lambda>sub. (if sub = [] then ''{ }'' else braced_line sub) @ [CHR 0x0A])
          (result st)), 0)))"
proof -
  have run: "generateSubsets [1, 2, 3] 0 fresh =
     Some (Inr \<lparr>current = [],
                result = [[], [3], [2], [2, 3], [1], [1, 3], [1, 2], [1, 2, 3]]\<rparr>)"
    by (simp add: generateSubsets.simps fresh_def subscript_def push_back_def pop_back_def)
  have fmt: "print_subset = (\<lambda>sub. (if sub = [] then ''{ }'' else braced_line sub) @ [CHR 0x0A])"
    by (rule ext) (simp add: print_subset_format newline_def)
  have a: "main = Some (Inr (concat (map (\<lambda>l. l @ [CHR 0x0A])
       [''All subsets:'', ''{ }'', ''{ 3 }'', ''{ 2 }'', ''{ 2 3 }'',
        ''{ 1 }'', ''{ 1 3 }'', ''{ 1 2 }'', ''{ 1 2 3 }'']), 0))"
    by (simp add: main_def run print_subset_def show_digits newline_def)
  have b: "main = Some (Inr (''All subsets:'' @ [CHR 0x0A] @
        concat (map (\<lambda>sub. (if sub = [] then ''{ }'' else braced_line sub) @ [CHR 0x0A])
          [[], [3], [2], [2, 3], [1], [1, 3], [1, 2], [1, 2, 3]]), 0))"
    unfolding fmt [symmetric] by (simp add: main_def run newline_def)
  from a b run show ?thesis by simp
qed

subsection \<open>Termination and depth of recursion\<close>

text \<open>
  Claim C8. For every input sequence of length \<open>n\<close> and every starting index between 0
  and \<open>n\<close> the call returns. A run whose recursion depth is limited to \<open>d\<close> nested calls
  completes, with the same outcome, exactly when \<open>n - index \<le> d\<close>: the call at
  \<open>index + 1\<close> needs one level less than the call at \<open>index\<close>, and from index 0 the depth
  reached is exactly \<open>n\<close>.
\<close>

theorem generateSubsets_terminates:
  assumes "0 \<le> index" and "index \<le> int (length nums)"
  shows "(\<exists>st'. generateSubsets nums index st = Some (Inr st')) \<and>
         (\<forall>d. generateSubsets_depth d nums index st =
               (if nat (int (length nums) - index) \<le> d then generateSubsets nums index st else None)) \<and>
         generateSubsets_depth (length nums) nums 0 st = generateSubsets nums 0 st \<and>
         (\<forall>d < length nums. generateSubsets_depth d nums 0 st = None)"
proof (intro conjI allI impI)
  show "\<exists>st'. generateSubsets nums index st = Some (Inr st')"
    using assms by (simp add: generateSubsets_returns)
  show "generateSubsets_depth d nums index st =
          (if nat (int (length nums) - index) \<le> d then generateSubsets nums index st else None)" for d
    using assms by (rule generateSubsets_depth_exact)
  show "generateSubsets_depth (length nums) nums 0 st = generateSubsets nums 0 st"
    by (simp add: generateSubsets_depth_exact)
  show "generateSubsets_depth d nums 0 st = None" if "d < length nums" for d
    using that by (simp add: generateSubsets_depth_exact)
qed

theorem generateSubsets_terminates_witness:
  "(0 :: int) \<le> 1 \<and> 1 \<le> int (length [1, 2, 3 :: int]) \<and>
   generateSubsets [1, 2, 3] 1 fresh =
     Some (Inr \<lparr>current = [], result = [[], [3], [2], [2, 3]]\<rparr>) \<and>
   generateSubsets_depth 2 [1, 2, 3] 1 fresh = generateSubsets [1, 2, 3] 1 fresh \<and>
   generateSubsets_depth 1 [1, 2, 3] 1 fresh = None \<and>
   generateSubsets_depth 3 [1, 2, 3] 0 fresh = generateSubsets [1, 2, 3] 0 fresh \<and>
   (2 :: nat) < length [1, 2, 3 :: int] \<and>
   generateSubsets_depth 2 [1, 2, 3] 0 fresh = None"
proof -
  have run: "generateSubsets [1, 2, 3] 1 fresh =
     Some (Inr \<lparr>current = [], result = [[], [3], [2], [2, 3]]\<rparr>)"
    by (simp add: generateSubsets.simps fresh_def subscript_def push_back_def pop_back_def)
  have h: "(0 :: int) \<le> 1" "1 \<le> int (length [1, 2, 3 :: int])"
    by simp_all
  have l3: "length [1, 2, 3 :: int] = 3" and l2: "(2 :: nat) < length [1, 2, 3 :: int]"
    by simp_all
  note t = generateSubsets_terminates [OF h, of fresh]
  have t1: "generateSubsets_depth d [1, 2, 3] 1 fresh =
      (if nat (int (length [1, 2, 3 :: int]) - 1) \<le> d then generateSubsets [1, 2, 3] 1 fresh else None)" for d
    using t by blast
  have d2: "generateSubsets_depth 2 [1, 2, 3] 1 fresh = generateSubsets [1, 2, 3] 1 fresh"
    by (subst t1) simp
  have d1: "generateSubsets_depth 1 [1, 2, 3] 1 fresh = None"
    by (subst t1) simp
  have "generateSubsets_depth (length [1, 2, 3 :: int]) [1, 2, 3] 0 fresh = generateSubsets [1, 2, 3] 0 fresh"
    using t by blast
  then have d3: "generateSubsets_depth 3 [1, 2, 3] 0 fresh = generateSubsets [1, 2, 3] 0 fresh"
    unfolding l3 .
  have t4: "d < length [1, 2, 3 :: int] \<Longrightarrow> generateSubsets_depth d [1, 2, 3] 0 fresh = None" for d
    using t by blast
  have d0: "generateSubsets_depth 2 [1, 2, 3] 0 fresh = None"
    using l2 by (rule t4)
  from h run d2 d1 d3 l2 d0 show ?thesis by blast
qed

subsection \<open>Vector accesses stay in bounds\<close>

text \<open>
  Claim C9. Under the precondition \<open>0 \<le> index \<le> n\<close>, the access \<^verbatim>\<open>nums[index]\<close> is
  reached only with \<open>index < n\<close> and so reads an element of the vector; the recursive calls
  satisfy the precondition again; and the call returns without any error value. (Lemma
  \<open>generateSubsets_negative\<close> shows that the error is reached below the precondition.)
\<close>

theorem subscript_in_bounds:
  assumes "0 \<le> index" and "index \<le> int (length nums)"
  shows "(index \<noteq> int (length nums) \<longrightarrow>
            subscript nums index = Inr (nums ! nat index) \<and> nat index < length nums \<and>
            0 \<le> index + 1 \<and> index + 1 \<le> int (length nums)) \<and>
         generateSubsets nums index st \<noteq> None \<and>
         (\<forall>e. generateSubsets nums index st \<noteq> Some (Inl e))"
  using assms by (auto simp: subscript_def generateSubsets_returns)

theorem subscript_in_bounds_witness:
  "(0 :: int) \<le> 1 \<and> 1 \<le> int (length [5, 6 :: int]) \<and> 1 \<noteq> int (length [5, 6 :: int]) \<and>
   subscript [5, 6] 1 = Inr 6 \<and>
   generateSubsets [5, 6] 1 fresh \<noteq> None \<and>
   generateSubsets [5, 6] 1 fresh \<noteq> Some (Inl OutOfBounds)"
proof -
  have h: "(0 :: int) \<le> 1" "1 \<le> int (length [5, 6 :: int])" by simp_all
  from subscript_in_bounds [OF h, of fresh] show ?thesis by simp
qed

subsection \<open>Determinism\<close>

text \<open>
  Claim C10. Two runs on the same input sequence, each started on fresh buffers, produce
  the same result collection. The procedure reads nothing but its arguments, so a run is
  the value of a function; whatever depth of recursion two completed runs were allowed,
  both end with the one outcome of \<open>generateSubsets\<close>.
\<close>

theorem generateSubsets_deterministic:
  "\<exists>r. generateSubsets nums 0 fresh = Some (Inr r) \<and>
        (\<forall>d1 d2 r1 r2. generateSubsets_depth d1 nums 0 fresh = Some r1 \<longrightarrow>
                        generateSubsets_depth d2 nums 0 fresh = Some r2 \<longrightarrow>
                        r1 = Inr r \<and> r2 = Inr r)"
  using generateSubsets_depth_sound [of _ nums 0 fresh]
  by (auto simp: generateSubsets_fresh)

theorem generateSubsets_deterministic_witness:
  "generateSubsets_depth 2 [8, 9] 0 fresh = Some (Inr \<lparr>current = [], result = [[], [9], [8], [8, 9]]\<rparr>) \<and>
   generateSubsets_depth 5 [8, 9] 0 fresh = Some (Inr \<lparr>current = [], result = [[], [9], [8], [8, 9]]\<rparr>) \<and>
   generateSubsets [8, 9] 0 fresh = Some (Inr \<lparr>current = [], result = [[], [9], [8], [8, 9]]\<rparr>)"
proof -
  let ?r = "Inr \<lparr>current = [], result = [[], [9], [8], [8, 9]]\<rparr> :: error + buffers"
  have a: "generateSubsets_depth 2 [8, 9] 0 fresh = Some ?r"
    by (simp add: numeral_2_eq_2 fresh_def subscript_def push_back_def pop_back_def)
  from generateSubsets_deterministic [of "[8, 9]"] obtain r where
    r: "generateSubsets [8, 9] 0 fresh = Some (Inr r)" and
    u: "\<And>d1 d2 r1 r2. generateSubsets_depth d1 [8, 9] 0 fresh = Some r1 \<Longrightarrow>
          generateSubsets_depth d2 [8, 9] 0 fresh = Some r2 \<Longrightarrow> r1 = Inr r \<and> r2 = Inr r"
    by blast
  have b: "generateSubsets_depth 5 [8, 9] 0 fresh = Some ?r"
    by (simp add: generateSubsets_depth_exact generateSubsets_fresh)
  from u [OF a b] have "?r = Inr r" by simp
  with a b r show ?thesis by simp
qed

end
